theory Spec2Isabelle
  imports Complex_Main "HOL-Library.Log_Nat" "HOL-Library.Sublist" "HOL-Library.Word"
begin

section \<open>Batch manager (etl\_system/batch\_manager.py)\<close>

text \<open>
  \<^verbatim>\<open>datetime.now()\<close> is a reading of the naive local wall clock with a resolution of
  one microsecond. A reading is modelled by its count of microseconds on the calendar
  scale (an integer); it is what the clock shows, not physical time, and the local clock
  may step forward or back between two readings. The clock is an argument of every
  operation that reads it. Time stamps are stored as ISO strings written by
  \<^verbatim>\<open>isoformat()\<close> and read back by \<^verbatim>\<open>datetime.fromisoformat\<close>; that round trip
  is the identity on readings, and \<^verbatim>\<open>None\<close> is \<open>None\<close>.

  The difference of two readings is a \<^verbatim>\<open>timedelta\<close> of \<open>k\<close> microseconds, and
  \<^verbatim>\<open>total_seconds()\<close> returns the float \<^verbatim>\<open>k / 10**6\<close>: Python's true division of
  two integers, correctly rounded, so the binary64 number nearest to the quotient, ties
  going to the even mantissa. For \<open>a / d\<close> with \<open>a > 0\<close> and \<open>d = 10\<^sup>6\<close> the quotient
  is at least \<open>2\<^sup>-\<^sup>2\<^sup>0\<close>, so it is scaled by \<open>2\<^sup>7\<^sup>2\<close> to bring its 53 leading
  bits before the binary point: with \<open>n\<close> the number of bits beyond 53, the mantissa
  is the scaled quotient divided by \<open>2\<^sup>n\<close> and rounded to an integer, and the float
  is that mantissa times \<open>2\<^sup>n / 2\<^sup>7\<^sup>2\<close>. The float is kept as the rational number
  it denotes; comparing a float with an \<^verbatim>\<open>int\<close> is exact in Python.
\<close>

definition round_half_even :: "int \<Rightarrow> int \<Rightarrow> int" where
  "round_half_even n d =
     (let q = n div d; r = n mod d
      in if 2 * r < d then q else if d < 2 * r then q + 1 else if even q then q else q + 1)"

definition nearest_double :: "int \<Rightarrow> int \<Rightarrow> rat" where
  "nearest_double a d =
     (let bits = bitlen ((a * 2 ^ 72) div d);
          n = nat (bits - 53);
          m = round_half_even (a * 2 ^ 72) (d * 2 ^ n)
      in of_int (m * 2 ^ n) / 2 ^ 72)"

text \<open>\<^verbatim>\<open>timedelta.total_seconds()\<close> of a difference of \<open>k\<close> microseconds.\<close>

definition total_seconds :: "int \<Rightarrow> rat" where
  "total_seconds k =
     (if k = 0 then 0
      else if 0 < k then nearest_double k 1000000
      else - nearest_double (- k) 1000000)"

text \<open>
  The persisted state of \<^verbatim>\<open>BatchManager\<close> is a dictionary with five keys; the
  nested \<^verbatim>\<open>statistics\<close> dictionary has four integer counters.
\<close>

record statistics =
  total_batches :: int
  total_records :: int
  video_batches :: int
  image_batches :: int

record bm_state =
  processed_files :: "string list"
  last_video_batch :: "int option"
  pending_images :: "string list"
  last_run :: "int option"
  statistics :: statistics

record batch_manager =
  video_time_window :: int
  image_batch_size :: int
  state :: bm_state

text \<open>The dictionary returned by \<^verbatim>\<open>_load_state\<close> when no state file can be read.\<close>

definition default_state :: bm_state where
  "default_state =
     \<lparr>processed_files = [], last_video_batch = None, pending_images = [], last_run = None,
      statistics = \<lparr>total_batches = 0, total_records = 0, video_batches = 0, image_batches = 0\<rparr>\<rparr>"

text \<open>
  \<^verbatim>\<open>_load_state\<close>: the argument is what the state file holds, \<open>None\<close> when the file is
  absent or \<^verbatim>\<open>json.load\<close> fails.
\<close>

definition load_state :: "bm_state option \<Rightarrow> bm_state" where
  "load_state file = (case file of Some st \<Rightarrow> st | None \<Rightarrow> default_state)"

text \<open>\<^verbatim>\<open>BatchManager.__init__\<close>.\<close>

definition new_batch_manager :: "int \<Rightarrow> int \<Rightarrow> bm_state option \<Rightarrow> batch_manager" where
  "new_batch_manager w n file =
     \<lparr>video_time_window = w, image_batch_size = n, state = load_state file\<rparr>"

definition should_process_video_batch :: "batch_manager \<Rightarrow> int \<Rightarrow> bool" where
  "should_process_video_batch bm now =
     (case last_video_batch (state bm) of
        None \<Rightarrow> True
      | Some last_batch \<Rightarrow>
          (let time_elapsed = total_seconds (now - last_batch)
           in time_elapsed \<ge> of_int (video_time_window bm)))"

definition should_process_image_batch :: "batch_manager \<Rightarrow> int \<Rightarrow> bool" where
  "should_process_image_batch bm pending_count = (pending_count \<ge> image_batch_size bm)"

text \<open>The loop of \<^verbatim>\<open>mark_files_processed\<close>: append each name not yet in the list.\<close>

fun mark_loop :: "string list \<Rightarrow> string list \<Rightarrow> string list" where
  "mark_loop processed [] = processed"
| "mark_loop processed (filename # filenames) =
     mark_loop (if filename \<notin> set processed then processed @ [filename] else processed) filenames"

definition mark_files_processed :: "batch_manager \<Rightarrow> string list \<Rightarrow> batch_manager" where
  "mark_files_processed bm filenames =
     bm\<lparr>state := (state bm)\<lparr>processed_files := mark_loop (processed_files (state bm)) filenames\<rparr>\<rparr>"

definition update_video_batch_time :: "batch_manager \<Rightarrow> int \<Rightarrow> batch_manager" where
  "update_video_batch_time bm now =
     bm\<lparr>state := (state bm)
        \<lparr>last_video_batch := Some now,
         statistics := (statistics (state bm))
           \<lparr>video_batches := video_batches (statistics (state bm)) + 1\<rparr>\<rparr>\<rparr>"

definition update_image_batch_processed :: "batch_manager \<Rightarrow> int \<Rightarrow> batch_manager" where
  "update_image_batch_processed bm count =
     bm\<lparr>state := (state bm)
        \<lparr>pending_images := [],
         statistics := (statistics (state bm))
           \<lparr>image_batches := image_batches (statistics (state bm)) + 1\<rparr>\<rparr>\<rparr>"

definition update_statistics :: "batch_manager \<Rightarrow> int \<Rightarrow> int \<Rightarrow> batch_manager" where
  "update_statistics bm records_processed now =
     bm\<lparr>state := (state bm)
        \<lparr>last_run := Some now,
         statistics := (statistics (state bm))
           \<lparr>total_batches := total_batches (statistics (state bm)) + 1,
            total_records := total_records (statistics (state bm)) + records_processed\<rparr>\<rparr>\<rparr>"

text \<open>\<^verbatim>\<open>str.startswith\<close>.\<close>

definition startswith :: "string \<Rightarrow> string \<Rightarrow> bool" where
  "startswith s p = (take (length p) s = p)"

text \<open>
  \<^verbatim>\<open>get_pending_files\<close>; \<^verbatim>\<open>if source_type:\<close> is false for \<^verbatim>\<open>None\<close> and for the
  empty string.
\<close>

definition get_pending_files ::
  "batch_manager \<Rightarrow> string list \<Rightarrow> string option \<Rightarrow> string list" where
  "get_pending_files bm all_files source_type =
     (let processed = set (processed_files (state bm));
          pending = filter (\<lambda>f. f \<notin> processed) all_files
      in case source_type of
           None \<Rightarrow> pending
         | Some t \<Rightarrow> if t = [] then pending
                     else filter (\<lambda>f. startswith f (t @ ''_'')) pending)"

definition reset_state :: "batch_manager \<Rightarrow> batch_manager" where
  "reset_state bm = bm\<lparr>state := default_state\<rparr>"

text \<open>
  \<^verbatim>\<open>cleanup_old_state\<close>: \<^verbatim>\<open>xs[-max_files:]\<close> keeps the last \<open>max_files\<close> entries.
  The argument \<^verbatim>\<open>days_to_keep\<close> is not read by the body.
\<close>

definition max_files :: nat where
  "max_files = 10000"

definition cleanup_old_state :: "batch_manager \<Rightarrow> int \<Rightarrow> batch_manager" where
  "cleanup_old_state bm days_to_keep =
     (if length (processed_files (state bm)) > max_files
      then bm\<lparr>state := (state bm)
             \<lparr>processed_files :=
                drop (length (processed_files (state bm)) - max_files)
                     (processed_files (state bm))\<rparr>\<rparr>
      else bm)"

text \<open>
  The operations of a \<^verbatim>\<open>BatchManager\<close> as events, each with the clock reading at the
  call. The three queries leave the manager as it is.
\<close>

datatype bm_op =
    ShouldProcessVideoBatch
  | ShouldProcessImageBatch int
  | MarkFilesProcessed "string list"
  | UpdateVideoBatchTime
  | UpdateImageBatchProcessed int
  | UpdateStatistics int
  | GetPendingFiles "string list" "string option"
  | ResetState
  | CleanupOldState int

fun apply_op :: "batch_manager \<Rightarrow> int \<times> bm_op \<Rightarrow> batch_manager" where
  "apply_op bm (now, ShouldProcessVideoBatch) = bm"
| "apply_op bm (now, ShouldProcessImageBatch k) = bm"
| "apply_op bm (now, MarkFilesProcessed fs) = mark_files_processed bm fs"
| "apply_op bm (now, UpdateVideoBatchTime) = update_video_batch_time bm now"
| "apply_op bm (now, UpdateImageBatchProcessed c) = update_image_batch_processed bm c"
| "apply_op bm (now, UpdateStatistics n) = update_statistics bm n now"
| "apply_op bm (now, GetPendingFiles fs t) = bm"
| "apply_op bm (now, ResetState) = reset_state bm"
| "apply_op bm (now, CleanupOldState d) = cleanup_old_state bm d"

fun run_ops :: "batch_manager \<Rightarrow> (int \<times> bm_op) list \<Rightarrow> batch_manager" where
  "run_ops bm [] = bm"
| "run_ops bm (op # ops) = run_ops (apply_op bm op) ops"

text \<open>
  An operation removes nothing from \<^verbatim>\<open>processed_files\<close> when it is not a reset and
  not a cleanup called while more than \<open>max_files\<close> names are recorded; a run removes
  nothing when each of its operations, at the moment it is called, removes nothing.
\<close>

fun removes_nothing :: "batch_manager \<Rightarrow> bm_op \<Rightarrow> bool" where
  "removes_nothing bm ResetState = False"
| "removes_nothing bm (CleanupOldState d) = (length (processed_files (state bm)) \<le> max_files)"
| "removes_nothing bm _ = True"

fun no_removal_run :: "batch_manager \<Rightarrow> (int \<times> bm_op) list \<Rightarrow> bool" where
  "no_removal_run bm [] = True"
| "no_removal_run bm (op # ops) =
     (removes_nothing bm (snd op) \<and> no_removal_run (apply_op bm op) ops)"

text \<open>Staged file names used in examples: \<open>video_\<close> followed by \<open>i\<close> letters \<open>x\<close>.\<close>

definition video_name :: "nat \<Rightarrow> string" where
  "video_name i = ''video_'' @ replicate i (CHR ''x'')"

definition video_names :: "nat \<Rightarrow> string list" where
  "video_names n = map video_name [0..<n]"

section \<open>Tabular batches (the pandas operations the loader uses)\<close>

text \<open>
  A cell is null (\<^verbatim>\<open>None\<close>, \<^verbatim>\<open>NaN\<close>, \<^verbatim>\<open>NaT\<close>), a string or a number. A
  \<^verbatim>\<open>DataFrame\<close> is its number of rows and its labelled columns in order, each column
  holding one cell per row. pandas allows two columns to carry the same label
  (\<^verbatim>\<open>rename\<close> can produce that), so the columns are a list of pairs, not a map.
\<close>

datatype val = Null | Str string | Num real

datatype error =
    KeyError string
  | ValueError
  | OSError
  | ConnectionError
  | TransformerError

record dataframe =
  nrows :: nat
  cols :: "(string \<times> val list) list"

text \<open>\<^verbatim>\<open>df.columns\<close>, \<^verbatim>\<open>df.empty\<close> (an axis of length 0) and \<^verbatim>\<open>len(df)\<close> is \<open>nrows\<close>.\<close>

definition columns :: "dataframe \<Rightarrow> string list" where
  "columns df = map fst (cols df)"


text \<open>All columns that carry label \<open>c\<close>, in order.\<close>

definition labelled :: "dataframe \<Rightarrow> string \<Rightarrow> (string \<times> val list) list" where
  "labelled df c = filter (\<lambda>p. fst p = c) (cols df)"

text \<open>
  \<^verbatim>\<open>df[c]\<close> read as one column: \<^verbatim>\<open>KeyError\<close> when no column carries the label. When
  several do, pandas returns a frame instead of a column and each of the two uses below
  (\<^verbatim>\<open>pd.to_datetime\<close> of a frame without year, month and day columns; indexing by a
  boolean frame whose labels repeat) raises, which is the \<open>ValueError\<close> here.
\<close>

definition get_column :: "dataframe \<Rightarrow> string \<Rightarrow> error + val list" where
  "get_column df c =
     (case labelled df c of
        [] \<Rightarrow> Inl (KeyError c)
      | [p] \<Rightarrow> Inr (snd p)
      | _ \<Rightarrow> Inl ValueError)"

text \<open>
  \<^verbatim>\<open>df[c] = values\<close>: a new label is appended as the last column, an existing label is
  overwritten in place. \<^verbatim>\<open>df[c] = v\<close> with a scalar fills every row.
\<close>

definition set_column :: "dataframe \<Rightarrow> string \<Rightarrow> val list \<Rightarrow> dataframe" where
  "set_column df c vs =
     (if c \<in> set (columns df)
      then df\<lparr>cols := map (\<lambda>p. if fst p = c then (c, vs) else p) (cols df)\<rparr>
      else df\<lparr>cols := cols df @ [(c, vs)]\<rparr>)"

definition set_scalar :: "dataframe \<Rightarrow> string \<Rightarrow> val \<Rightarrow> dataframe" where
  "set_scalar df c v = set_column df c (replicate (nrows df) v)"

text \<open>\<^verbatim>\<open>df.rename(columns={old: new})\<close>: every label \<open>old\<close> becomes \<open>new\<close>.\<close>

definition rename :: "dataframe \<Rightarrow> string \<Rightarrow> string \<Rightarrow> dataframe" where
  "rename df old new = df\<lparr>cols := map (\<lambda>p. (if fst p = old then new else fst p, snd p)) (cols df)\<rparr>"

text \<open>
  \<^verbatim>\<open>df[cs]\<close> with a list of labels: \<^verbatim>\<open>KeyError\<close> when a label is missing; otherwise,
  for each requested label in turn, all columns that carry it.
\<close>

definition select_columns :: "dataframe \<Rightarrow> string list \<Rightarrow> error + dataframe" where
  "select_columns df cs =
     (case filter (\<lambda>c. c \<notin> set (columns df)) cs of
        [] \<Rightarrow> Inr (df\<lparr>cols := concat (map (labelled df) cs)\<rparr>)
      | c # _ \<Rightarrow> Inl (KeyError c))"



section \<open>Environment of one pipeline run\<close>

text \<open>
  What a run reads from outside the program: the staged files, the clock (a reading in
  microseconds, and the two strings the loader formats from it), and the outcome of
  every call that can fail. \<open>to_day\<close> is
  \<^verbatim>\<open>pd.to_datetime(x).strftime("%Y-%m-%d")\<close> on one cell, \<open>None\<close> where the cell does
  not parse. The transformer (\<^verbatim>\<open>etl_system/transformer.py\<close>) is taken as the two
  functions the orchestrator calls. A staged file whose \<open>content\<close> is \<open>None\<close> cannot be
  read.
\<close>

record staged_file =
  name :: string
  content :: "dataframe option"

record env =
  staging :: "staged_file list"
  clock :: int
  now_iso :: string
  today :: string
  to_day :: "val \<Rightarrow> val option"
  transform_pipeline :: "dataframe \<Rightarrow> error + dataframe"
  get_transformation_stats :: "dataframe \<Rightarrow> dataframe \<Rightarrow> error + unit"
  read_ids_ok :: bool
  tmp_ok :: bool
  conn_ok :: bool
  load_data_ok :: bool
  insert_ok :: "nat \<Rightarrow> bool"

section \<open>Loader (etl\_system/loader.py)\<close>



definition rename_map :: "(string \<times> string) list" where
  "rename_map =
     [(''timestamp'', ''detection_timestamp''),
      (''filename'', ''source_filename''),
      (''_extracted_at'', ''extracted_at''),
      (''_processed_at'', ''processed_at''),
      (''_loaded_at'', ''loaded_at''),
      (''_source_file'', ''source_csv_file'')]"

definition expected_columns :: "string list" where
  "expected_columns =
     [''detection_id'', ''source_type'', ''source_file'', ''source_filename'',
      ''detection_timestamp'', ''frame_number'', ''frame_timestamp'', ''class_id'',
      ''class_name'', ''confidence'', ''bbox_x1'', ''bbox_y1'', ''bbox_x2'', ''bbox_y2'',
      ''bbox_width'', ''bbox_height'', ''bbox_area'', ''center_x'', ''center_y'',
      ''normalized_x1'', ''normalized_y1'', ''normalized_x2'', ''normalized_y2'',
      ''aspect_ratio'', ''relative_area'', ''image_width'', ''image_height'',
      ''detection_index'', ''size_category'', ''confidence_category'',
      ''horizontal_position'', ''vertical_position'', ''extracted_at'',
      ''processed_at'', ''loaded_at'', ''source_csv_file'', ''processing_date'']"

text \<open>The loop over \<^verbatim>\<open>rename_map.items()\<close>.\<close>

definition rename_step :: "string \<times> string \<Rightarrow> dataframe \<Rightarrow> dataframe" where
  "rename_step kv df =
     (if fst kv \<in> set (columns df) then rename df (fst kv) (snd kv) else df)"

definition apply_renames :: "dataframe \<Rightarrow> dataframe" where
  "apply_renames df = fold rename_step rename_map df"

text \<open>
  \<^verbatim>\<open>pd.to_datetime(series).dt.strftime("%Y-%m-%d")\<close> raises when one cell does not
  parse.
\<close>

definition day_of_column :: "env \<Rightarrow> dataframe \<Rightarrow> string \<Rightarrow> error + val list" where
  "day_of_column e df c =
     (case get_column df c of
        Inl err \<Rightarrow> Inl err
      | Inr vs \<Rightarrow> (case those (map (to_day e) vs) of
                     None \<Rightarrow> Inl ValueError
                   | Some ds \<Rightarrow> Inr ds))"

definition add_processing_date :: "env \<Rightarrow> dataframe \<Rightarrow> error + dataframe" where
  "add_processing_date e df =
     (if ''detection_timestamp'' \<in> set (columns df) then
        (case day_of_column e df ''detection_timestamp'' of
           Inl err \<Rightarrow> Inl err
         | Inr ds \<Rightarrow> Inr (set_column df ''processing_date'' ds))
      else if ''timestamp'' \<in> set (columns df) then
        (case day_of_column e df ''timestamp'' of
           Inl err \<Rightarrow> Inl err
         | Inr ds \<Rightarrow> Inr (set_column df ''processing_date'' ds))
      else Inr (set_scalar df ''processing_date'' (Str (today e))))"

text \<open>The loop that adds every expected column the frame lacks, filled with nulls.\<close>

definition fill_step :: "string \<Rightarrow> dataframe \<Rightarrow> dataframe" where
  "fill_step col df = (if col \<notin> set (columns df) then set_scalar df col Null else df)"

definition fill_missing :: "string list \<Rightarrow> dataframe \<Rightarrow> dataframe" where
  "fill_missing cs df = fold fill_step cs df"

text \<open>
  The first half of \<^verbatim>\<open>load_batch\<close>, from \<^verbatim>\<open>df.copy()\<close> to
  \<^verbatim>\<open>df = df[expected_columns]\<close>: the frame that is then written.
\<close>

definition align_columns :: "env \<Rightarrow> dataframe \<Rightarrow> error + dataframe" where
  "align_columns e df =
     (let df1 = set_scalar df ''loaded_at'' (Str (now_iso e));
          df2 = apply_renames df1
      in case add_processing_date e df2 of
           Inl err \<Rightarrow> Inl err
         | Inr df3 \<Rightarrow> select_columns (fill_missing expected_columns df3) expected_columns)"








section \<open>Extractor (etl\_system/extractor.py)\<close>






section \<open>Orchestrator (scripts/run\_etl.py)\<close>







section \<open>Scheduler (\<^verbatim>\<open>BatchScheduler.run\<close>)\<close>








section \<open>Detection ids (classification\_system/detector.py)\<close>















section \<open>Example inputs\<close>








section \<open>Properties of the batch manager\<close>

lemma set_mark_loop: "set (mark_loop processed fs) = set processed \<union> set fs"
  by (induction fs arbitrary: processed) auto

lemma mark_loop_distinct_fresh:
  "distinct fs \<Longrightarrow> set fs \<inter> set processed = {} \<Longrightarrow> mark_loop processed fs = processed @ fs"
  by (induction fs arbitrary: processed) auto

lemma apply_op_keeps:
  assumes "removes_nothing bm (snd op)"
  shows "set (processed_files (state bm)) \<subseteq> set (processed_files (state (apply_op bm op)))"
proof (cases op)
  case (Pair now o')
  with assms show ?thesis
    by (cases o')
       (auto simp: mark_files_processed_def set_mark_loop update_video_batch_time_def
          update_image_batch_processed_def update_statistics_def cleanup_old_state_def)
qed

lemma run_ops_keeps:
  "no_removal_run bm ops \<Longrightarrow>
   set (processed_files (state bm)) \<subseteq> set (processed_files (state (run_ops bm ops)))"
proof (induction ops arbitrary: bm)
  case Nil
  then show ?case by simp
next
  case (Cons op ops)
  from Cons.prems have "removes_nothing bm (snd op)" and "no_removal_run (apply_op bm op) ops"
    by simp_all
  with apply_op_keeps [of bm op] Cons.IH [of "apply_op bm op"] show ?case
    by auto
qed

lemma pending_excludes_processed:
  "f \<in> set (processed_files (state bm)) \<Longrightarrow> f \<notin> set (get_pending_files bm all_files t)"
  by (auto simp: get_pending_files_def Let_def split: option.splits)

lemma video_name_inj: "video_name i = video_name j \<Longrightarrow> i = j"
proof -
  assume "video_name i = video_name j"
  then have "length (video_name i) = length (video_name j)" by simp
  then show "i = j" by (simp add: video_name_def)
qed

lemma distinct_video_names: "distinct (video_names n)"
  by (auto simp: video_names_def distinct_map inj_on_def dest: video_name_inj)

lemma video_names_Suc: "video_names (Suc n) = video_name 0 # map video_name [1..<Suc n]"
  by (simp add: video_names_def upt_conv_Cons del: upt_Suc)

lemma rhe_ge: "0 < d \<Longrightarrow> M * d \<le> n \<Longrightarrow> M \<le> round_half_even n d"
proof -
  assume d: "0 < d" and le: "M * d \<le> n"
  then have "M * d div d \<le> n div d"
    by (intro zdiv_mono1) simp_all
  with d have "M \<le> n div d" by simp
  then show ?thesis by (auto simp: round_half_even_def Let_def)
qed

lemma rhe_upper: "0 < d \<Longrightarrow> 2 * (round_half_even n d * d) \<le> 2 * n + d"
proof -
  assume d: "0 < d"
  let ?q = "n div d" and ?r = "n mod d"
  have n: "n = ?q * d + ?r" by simp
  have r: "0 \<le> ?r" "?r < d" using d by simp_all
  show ?thesis
  proof (cases "2 * ?r < d")
    case True
    then have "round_half_even n d = ?q" by (simp add: round_half_even_def Let_def)
    moreover have "2 * (?q * d) \<le> 2 * n + d"
      using n r d by linarith
    ultimately show ?thesis by simp
  next
    case False
    then have d2: "d \<le> 2 * ?r" by simp
    have "round_half_even n d \<le> ?q + 1" by (simp add: round_half_even_def Let_def)
    then have "round_half_even n d * d \<le> (?q + 1) * d"
      using d by (intro mult_right_mono) simp_all
    also have "\<dots> = ?q * d + d" by (simp add: algebra_simps)
    finally have "2 * (round_half_even n d * d) \<le> 2 * (?q * d) + 2 * d" by simp
    also have "\<dots> \<le> 2 * (?q * d) + (2 * ?r + d)" using d2 by simp
    also have "\<dots> = 2 * n + d" using n by linarith
    finally show ?thesis .
  qed
qed

lemma nearest_double_exponent:
  assumes a: "0 < a"
  defines "n \<equiv> nat (bitlen ((a * 2 ^ 72) div 1000000) - 53)"
  shows "2 ^ (n + 52) * 1000000 \<le> a * 2 ^ 72" and "a * 2 ^ 72 < 2 ^ (n + 53) * 1000000"
proof -
  let ?Y = "a * 2 ^ 72" and ?N = "(a * 2 ^ 72) div 1000000"
  have "(1 * 2 ^ 72 :: int) \<le> ?Y"
    using a by (intro mult_right_mono) simp_all
  then have "(2 ^ 72 :: int) div 1000000 \<le> ?N"
    by (intro zdiv_mono1) simp_all
  moreover have "(2 ^ 52 :: int) \<le> 2 ^ 72 div 1000000" by simp
  ultimately have N52: "2 ^ 52 \<le> ?N" by linarith
  then have Npos: "0 < ?N" by (smt (verit) zero_less_power)
  from bitlen_bounds [OF Npos]
  have lo: "2 ^ nat (bitlen ?N - 1) \<le> ?N" and hi: "?N < 2 ^ nat (bitlen ?N)" by simp_all
  have "52 < nat (bitlen ?N)"
  proof (rule ccontr)
    assume "\<not> 52 < nat (bitlen ?N)"
    then have "nat (bitlen ?N) \<le> 52" by simp
    then have "(2::int) ^ nat (bitlen ?N) \<le> 2 ^ 52"
      by (intro power_increasing) simp_all
    with hi N52 show False by linarith
  qed
  then have e1: "nat (bitlen ?N - 1) = n + 52" and e2: "nat (bitlen ?N) = n + 53"
    by (simp_all add: n_def)
  have dm: "?N * 1000000 + ?Y mod 1000000 = ?Y"
    by (rule div_mult_mod_eq)
  have m0: "0 \<le> ?Y mod 1000000" and m1: "?Y mod 1000000 < 1000000"
    by simp_all
  have "?N * 1000000 \<le> ?Y"
    using dm m0 by linarith
  moreover from lo have "2 ^ (n + 52) * 1000000 \<le> ?N * 1000000"
    unfolding e1 by simp
  ultimately show "2 ^ (n + 52) * 1000000 \<le> ?Y" by linarith
  have "?Y < (?N + 1) * 1000000"
    using dm m1 by (simp add: algebra_simps)
  moreover from hi have "(?N + 1) * 1000000 \<le> 2 ^ (n + 53) * 1000000"
    unfolding e2 by simp
  ultimately show "?Y < 2 ^ (n + 53) * 1000000" by linarith
qed


lemma rat_le_div_iff:
  "(of_int W :: rat) \<le> of_int x / 2 ^ 72 \<longleftrightarrow> W * 2 ^ 72 \<le> x"
proof -
  have "(of_int W :: rat) \<le> of_int x / 2 ^ 72 \<longleftrightarrow> (of_int W :: rat) * 2 ^ 72 \<le> of_int x"
    by (simp add: pos_le_divide_eq)
  also have "\<dots> \<longleftrightarrow> (of_int (W * 2 ^ 72) :: rat) \<le> of_int x" by simp
  also have "\<dots> \<longleftrightarrow> W * 2 ^ 72 \<le> x" by (rule of_int_le_iff)
  finally show ?thesis .
qed

lemma nearest_double_le_iff:
  "of_int W \<le> nearest_double a 1000000 \<longleftrightarrow>
     W * 2 ^ 72 \<le> round_half_even (a * 2 ^ 72)
                     (1000000 * 2 ^ nat (bitlen ((a * 2 ^ 72) div 1000000) - 53))
                   * 2 ^ nat (bitlen ((a * 2 ^ 72) div 1000000) - 53)"
  unfolding nearest_double_def Let_def by (rule rat_le_div_iff)

lemma nearest_double_ge:
  assumes a: "0 < a" and W: "0 \<le> W" "W \<le> 2 ^ 34" and le: "W * 1000000 \<le> a"
  shows "of_int W \<le> nearest_double a 1000000"
proof -
  define n where "n = nat (bitlen ((a * 2 ^ 72) div 1000000) - 53)"
  define m where "m = round_half_even (a * 2 ^ 72) (1000000 * 2 ^ n)"
  define P :: int where "P = 2 ^ 72"
  define Q :: int where "Q = 2 ^ n"
  have Ppos: "0 < P" and Qpos: "0 < Q" by (simp_all add: P_def Q_def)
  have D: "0 < 1000000 * Q" using Qpos by simp
  from nearest_double_exponent(1) [OF a]
  have lo: "2 ^ (n + 52) * 1000000 \<le> a * P" by (simp only: n_def P_def)
  have m: "m = round_half_even (a * P) (1000000 * Q)" by (simp only: m_def P_def Q_def)
  have goal: "W * P \<le> m * Q"
  proof (cases "n \<le> 72")
    case True
    define R :: int where "R = 2 ^ (72 - n)"
    from True have "(72 - n) + n = 72" by simp
    then have p: "P = R * Q"
      unfolding P_def R_def Q_def by (metis power_add)
    have "W * R * (1000000 * Q) = W * 1000000 * P"
      by (simp add: p)
    also have "\<dots> \<le> a * P"
      using le Ppos by (intro mult_right_mono) simp_all
    finally have "W * R \<le> m"
      unfolding m using D by (intro rhe_ge)
    then have "W * R * Q \<le> m * Q"
      using Qpos by (intro mult_right_mono) simp_all
    then show ?thesis by (simp add: p mult.assoc)
  next
    case False
    have "2 ^ 52 * (1000000 * Q) = 2 ^ (n + 52) * (1000000::int)"
      unfolding Q_def by (simp only: power_add) simp
    with lo have "2 ^ 52 \<le> m"
      unfolding m using D by (intro rhe_ge) simp_all
    then have 1: "2 ^ 52 * Q \<le> m * Q"
      using Qpos by (intro mult_right_mono) simp_all
    have "P \<le> Q"
      unfolding P_def Q_def using False by (intro power_increasing) simp_all
    then have 2: "2 ^ 52 * P \<le> 2 ^ 52 * Q"
      by (intro mult_left_mono) simp_all
    have 3: "W * P \<le> 2 ^ 34 * P"
      using W Ppos by (intro mult_right_mono) simp_all
    have 4: "2 ^ 34 * P \<le> 2 ^ 52 * P"
      using Ppos by (intro mult_right_mono) simp_all
    from 1 2 3 4 show ?thesis by linarith
  qed
  show ?thesis
    unfolding nearest_double_le_iff using goal by (simp only: n_def m_def P_def Q_def)
qed

lemma nearest_double_less:
  assumes a: "0 < a" and W: "W \<le> 2 ^ 34" and less: "a < W * 1000000"
  shows "\<not> of_int W \<le> nearest_double a 1000000"
proof -
  define n where "n = nat (bitlen ((a * 2 ^ 72) div 1000000) - 53)"
  define m where "m = round_half_even (a * 2 ^ 72) (1000000 * 2 ^ n)"
  define P :: int where "P = 2 ^ 72"
  define Q :: int where "Q = 2 ^ n"
  have Ppos: "0 < P" and Qpos: "0 < Q" by (simp_all add: P_def Q_def)
  have D: "0 < 1000000 * Q" using Qpos by simp
  have m: "m = round_half_even (a * P) (1000000 * Q)" by (simp only: m_def P_def Q_def)
  from nearest_double_exponent(1) [OF a]
  have lo: "2 ^ (n + 52) * 1000000 \<le> a * P" by (simp only: n_def P_def)
  from less have a1: "a + 1 \<le> W * 1000000" by simp
  have "a * P < W * 1000000 * P"
    using less Ppos by (intro mult_strict_right_mono) simp_all
  also have "W * 1000000 * P \<le> 2 ^ 34 * 1000000 * P"
    using W Ppos by (intro mult_right_mono) simp_all
  also have "2 ^ 34 * 1000000 * P = 2 ^ 106 * 1000000"
    unfolding P_def by simp
  finally have "2 ^ (n + 52) * (1000000::int) < 2 ^ 106 * 1000000"
    using lo by linarith
  then have "(2::int) ^ (n + 52) < 2 ^ 106"
    by (simp only: mult_less_cancel_right_pos [of "1000000::int"] zero_less_numeral)
  then have "n + 52 < 106"
    by (simp only: power_strict_increasing_iff [of "2::int"] one_less_numeral_iff
          semiring_norm)
  then have n53: "n \<le> 53" by simp
  have "Q \<le> 2 ^ 53"
    unfolding Q_def using n53 by (intro power_increasing) simp_all
  then have "1000000 * Q \<le> 1000000 * 2 ^ 53"
    by (intro mult_left_mono) simp_all
  also have "\<dots> < 2 * P" unfolding P_def by simp
  finally have half: "1000000 * Q < 2 * P" .
  from rhe_upper [OF D, of "a * P"]
  have up: "2 * (m * (1000000 * Q)) \<le> 2 * (a * P) + 1000000 * Q"
    by (simp only: m)
  have "(a + 1) * P \<le> W * 1000000 * P"
    using a1 Ppos by (intro mult_right_mono) simp_all
  then have "2 * (a * P) + 2 * P \<le> 2 * (W * 1000000 * P)"
    by (simp add: algebra_simps)
  with up half have "2 * (m * (1000000 * Q)) < 2 * (W * 1000000 * P)"
    by linarith
  then have "(m * Q) * 1000000 < (W * P) * 1000000"
    by (simp add: algebra_simps)
  then have "m * Q < W * P"
    by (simp only: mult_less_cancel_right_pos [of "1000000::int"] zero_less_numeral)
  then have "\<not> W * P \<le> m * Q" by simp
  then show ?thesis
    unfolding nearest_double_le_iff P_def Q_def m_def n_def .
qed

lemma rat_pos_div: "0 < x \<Longrightarrow> (0::rat) < of_int x / 2 ^ 72"
  by simp

lemma nearest_double_pos:
  assumes a: "0 < a"
  shows "0 < nearest_double a 1000000"
proof -
  define n where "n = nat (bitlen ((a * 2 ^ 72) div 1000000) - 53)"
  define m where "m = round_half_even (a * 2 ^ 72) (1000000 * 2 ^ n)"
  define Q :: int where "Q = 2 ^ n"
  have Qpos: "0 < Q" by (simp add: Q_def)
  from nearest_double_exponent(1) [OF a]
  have lo: "2 ^ (n + 52) * 1000000 \<le> a * 2 ^ 72" by (simp only: n_def)
  have "2 ^ 52 * (1000000 * Q) = 2 ^ (n + 52) * (1000000::int)"
    unfolding Q_def by (simp only: power_add) simp
  with lo have "2 ^ 52 \<le> m"
    unfolding m_def Q_def [symmetric] using Qpos by (intro rhe_ge) simp_all
  then have "0 < m" by simp
  from this Qpos have "0 < m * Q" by (rule mult_pos_pos)
  then have "0 < m * 2 ^ n" by (simp only: Q_def)
  then show ?thesis
    unfolding nearest_double_def Let_def m_def n_def by (rule rat_pos_div)
qed

lemma total_seconds_ge_iff:
  assumes "0 \<le> W" and "W \<le> 2 ^ 34"
  shows "of_int W \<le> total_seconds k \<longleftrightarrow> W * 1000000 \<le> k"
proof -
  consider "k = 0" | "0 < k" | "k < 0" by linarith
  then show ?thesis
  proof cases
    case 1
    with assms show ?thesis by (simp add: total_seconds_def)
  next
    case 2
    then have ts: "total_seconds k = nearest_double k 1000000"
      by (simp add: total_seconds_def)
    show ?thesis
    proof (cases "W * 1000000 \<le> k")
      case True
      with nearest_double_ge [OF 2 assms True] show ?thesis by (simp only: ts)
    next
      case False
      then have "k < W * 1000000" by simp
      from nearest_double_less [OF 2 assms(2) this] False show ?thesis by (simp only: ts)
    qed
  next
    case 3
    then have ts: "total_seconds k = - nearest_double (- k) 1000000"
      by (simp add: total_seconds_def)
    from 3 have "0 < - k" by simp
    then have "0 < nearest_double (- k) 1000000" by (rule nearest_double_pos)
    then have "total_seconds k < 0" by (simp only: ts neg_less_0_iff_less)
    moreover from assms(1) have "(0::rat) \<le> of_int W" by simp
    ultimately have "\<not> of_int W \<le> total_seconds k" by linarith
    moreover from 3 assms(1) have "\<not> W * 1000000 \<le> k" by linarith
    ultimately show ?thesis by simp
  qed
qed

lemma total_seconds_rounds_up:
  "total_seconds (2 ^ 35 * 1000000 - 1) = 2 ^ 35"
  by code_simp

text \<open>
  For a window of 0 to \<open>2\<^sup>3\<^sup>4\<close> seconds the float comparison of the trigger agrees
  with the exact comparison of the two readings in microseconds.
\<close>

lemma should_process_video_batch_exact:
  assumes "0 \<le> video_time_window bm" and "video_time_window bm \<le> 2 ^ 34"
  shows "should_process_video_batch bm now \<longleftrightarrow>
           (case last_video_batch (state bm) of
              None \<Rightarrow> True
            | Some last_batch \<Rightarrow> video_time_window bm * 1000000 \<le> now - last_batch)"
  by (simp add: should_process_video_batch_def Let_def total_seconds_ge_iff [OF assms]
        split: option.splits)

text \<open>
  C4, amended. The video trigger is true exactly when no video batch has been recorded
  or \<open>time_elapsed >= video_time_window\<close>, where \<open>time_elapsed\<close> is the float
  \<open>total_seconds()\<close> of the difference between the current reading of the local clock
  and the recorded one. For a window \<open>W\<close> of 0 to \<open>2\<^sup>3\<^sup>4\<close> seconds this is the exact
  comparison of the readings: true exactly when the current reading is at least \<open>W\<close>
  seconds past the recorded one. So for \<open>0 < W \<le> 2\<^sup>3\<^sup>4\<close>, from the moment
  \<open>update_video_batch_time\<close> has run and for as long as the clock reads less than \<open>W\<close>
  seconds past the recorded reading the trigger is false, and once the clock reads
  \<open>W\<close> seconds or more past it the trigger is true.
\<close>

theorem video_trigger_window:
  "(should_process_video_batch bm now \<longleftrightarrow>
      last_video_batch (state bm) = None \<or>
      (\<exists>t. last_video_batch (state bm) = Some t
           \<and> total_seconds (now - t) \<ge> of_int (video_time_window bm)))
   \<and> (0 \<le> video_time_window bm \<and> video_time_window bm \<le> 2 ^ 34 \<longrightarrow>
        (should_process_video_batch bm now \<longleftrightarrow>
           last_video_batch (state bm) = None \<or>
           (\<exists>t. last_video_batch (state bm) = Some t
                \<and> now - t \<ge> video_time_window bm * 1000000)))
   \<and> (0 < video_time_window bm \<and> video_time_window bm \<le> 2 ^ 34 \<longrightarrow>
        t1 - t0 < video_time_window bm * 1000000 \<longrightarrow>
        \<not> should_process_video_batch (update_video_batch_time bm t0) t1)
   \<and> (0 \<le> video_time_window bm \<and> video_time_window bm \<le> 2 ^ 34 \<longrightarrow>
        t1 - t0 \<ge> video_time_window bm * 1000000 \<longrightarrow>
        should_process_video_batch (update_video_batch_time bm t0) t1)"
proof -
  have w: "video_time_window (update_video_batch_time bm t0) = video_time_window bm"
    and l: "last_video_batch (state (update_video_batch_time bm t0)) = Some t0"
    by (simp_all add: update_video_batch_time_def)
  have a: "should_process_video_batch bm now \<longleftrightarrow>
      last_video_batch (state bm) = None \<or>
      (\<exists>t. last_video_batch (state bm) = Some t
           \<and> total_seconds (now - t) \<ge> of_int (video_time_window bm))"
    by (auto simp: should_process_video_batch_def Let_def split: option.splits)
  have b: "0 \<le> video_time_window bm \<and> video_time_window bm \<le> 2 ^ 34 \<longrightarrow>
        (should_process_video_batch bm now \<longleftrightarrow>
           last_video_batch (state bm) = None \<or>
           (\<exists>t. last_video_batch (state bm) = Some t
                \<and> now - t \<ge> video_time_window bm * 1000000))"
    by (auto simp: should_process_video_batch_exact split: option.splits)
  have c: "0 \<le> video_time_window bm \<and> video_time_window bm \<le> 2 ^ 34 \<longrightarrow>
        (should_process_video_batch (update_video_batch_time bm t0) t1 \<longleftrightarrow>
           video_time_window bm * 1000000 \<le> t1 - t0)"
    using should_process_video_batch_exact [of "update_video_batch_time bm t0" t1]
    by (simp add: w l)
  from a b c show ?thesis by auto
qed

theorem video_trigger_window_witness:
  "\<not> should_process_video_batch
       (update_video_batch_time (new_batch_manager 300 100 None) 1000000000) 1000000000
   \<and> \<not> should_process_video_batch
       (update_video_batch_time (new_batch_manager 300 100 None) 1000000000) 1299999999
   \<and> should_process_video_batch
       (update_video_batch_time (new_batch_manager 300 100 None) 1000000000) 1300000000
   \<and> should_process_video_batch (new_batch_manager 300 100 None) 1000000000"
  using video_trigger_window [of "new_batch_manager 300 100 None" 1000000000 1000000000 1000000000]
    video_trigger_window [of "new_batch_manager 300 100 None" 1000000000 1299999999 1000000000]
    video_trigger_window [of "new_batch_manager 300 100 None" 1000000000 1300000000 1000000000]
  by (simp add: new_batch_manager_def load_state_def default_state_def)

text \<open>
  C4 as stated fails in two ways. For a window of zero seconds the trigger is true at
  the very reading \<open>update_video_batch_time\<close> has recorded. And for a window of
  \<open>2\<^sup>3\<^sup>5\<close> seconds the trigger is already true one microsecond before the window
  has passed on the clock, because \<open>total_seconds()\<close> rounds up to the window.
\<close>

theorem video_trigger_zero_window_counterexample:
  "should_process_video_batch
     (update_video_batch_time (new_batch_manager 0 100 None) 1000000000) 1000000000
   \<and> 34359738368 * 1000000 - 1 < (34359738368 * 1000000 :: int)
   \<and> should_process_video_batch
       (update_video_batch_time (new_batch_manager 34359738368 100 None) 0)
       (34359738368 * 1000000 - 1)"
proof -
  have z: "should_process_video_batch
     (update_video_batch_time (new_batch_manager 0 100 None) 1000000000) 1000000000"
    by (simp add: should_process_video_batch_def update_video_batch_time_def
          new_batch_manager_def load_state_def default_state_def total_seconds_def)
  have "total_seconds (34359738368 * 1000000 - 1) = 34359738368"
    using total_seconds_rounds_up by simp
  then have r: "should_process_video_batch
       (update_video_batch_time (new_batch_manager 34359738368 100 None) 0)
       (34359738368 * 1000000 - 1)"
    by (simp add: should_process_video_batch_def update_video_batch_time_def
          new_batch_manager_def load_state_def default_state_def)
  from z r show ?thesis by simp
qed

text \<open>
  C5: the image trigger is true exactly when the pending count reaches the configured
  batch size; a count of exactly the batch size triggers, one less does not. The clock
  and the rest of the manager's state are not read: two managers with the same batch
  size agree.
\<close>

theorem image_trigger_threshold:
  "should_process_image_batch bm k = (k \<ge> image_batch_size bm)
   \<and> should_process_image_batch bm (image_batch_size bm)
   \<and> \<not> should_process_image_batch bm (image_batch_size bm - 1)
   \<and> should_process_image_batch (bm\<lparr>state := st\<rparr>) k = should_process_image_batch bm k"
  by (simp add: should_process_image_batch_def)

text \<open>
  C7 as stated fails: \<open>cleanup_old_state\<close> is an operation other than a reset, and
  once more than \<open>max_files\<close> names are recorded it drops the oldest ones. Here 10001
  files are marked on a fresh manager and the first of them is gone after the cleanup.
\<close>

theorem cleanup_removes_counterexample:
  "video_name 0 \<in> set (processed_files (state
      (run_ops (new_batch_manager 300 100 None) [(0, MarkFilesProcessed (video_names 10001))])))
   \<and> video_name 0 \<notin> set (processed_files (state
      (run_ops (new_batch_manager 300 100 None)
         [(0, MarkFilesProcessed (video_names 10001)), (1, CleanupOldState 7)])))"
proof -
  let ?bm0 = "new_batch_manager 300 100 None"
  let ?all = "video_names 10001"
  let ?rest = "map video_name [1..<Suc 10000]"
  have names: "?all = video_name 0 # ?rest"
    using video_names_Suc [of 10000] by simp
  have d: "distinct ?all" by (rule distinct_video_names)
  have marked: "mark_loop [] ?all = ?all"
    using mark_loop_distinct_fresh [OF d, of "[]"] by simp
  have pf: "processed_files (state (mark_files_processed ?bm0 ?all)) = ?all"
    by (simp add: new_batch_manager_def load_state_def default_state_def
          mark_files_processed_def marked)
  have len: "length ?all = 10001"
    by (simp add: video_names_def)
  have notin: "video_name 0 \<notin> set ?rest"
    using d unfolding names by simp
  have "drop (length ?all - max_files) ?all = drop 1 ?all"
    by (simp add: len max_files_def)
  also have "\<dots> = drop 1 (video_name 0 # ?rest)"
    by (simp only: names)
  also have "\<dots> = ?rest" by simp
  finally have dropped: "drop (length ?all - max_files) ?all = ?rest" .
  have gt: "length ?all > max_files"
    by (simp add: len max_files_def)
  have cleaned:
    "processed_files (state (cleanup_old_state (mark_files_processed ?bm0 ?all) 7)) = ?rest"
    by (simp add: cleanup_old_state_def pf gt dropped)
  have "video_name 0 \<in> set ?all"
    by (subst names) simp
  then show ?thesis
    using notin by (simp add: pf cleaned)
qed

text \<open>
  C7, amended: along every sequence of operations that holds no reset and no cleanup
  called while more than \<open>max_files\<close> names are recorded, a name once in
  \<open>processed_files\<close> stays there, and \<open>get_pending_files\<close> never offers it again.
\<close>

theorem processed_files_monotone:
  assumes "no_removal_run bm ops"
    and "f \<in> set (processed_files (state bm))"
  shows "f \<in> set (processed_files (state (run_ops bm ops)))
         \<and> f \<notin> set (get_pending_files (run_ops bm ops) all_files t)"
proof -
  from run_ops_keeps [OF assms(1)] assms(2)
  have "f \<in> set (processed_files (state (run_ops bm ops)))" by blast
  then show ?thesis by (simp add: pending_excludes_processed)
qed

theorem processed_files_monotone_witness:
  "no_removal_run (mark_files_processed (new_batch_manager 300 100 None) [''video_a.csv''])
     [(1, UpdateStatistics 5), (1, UpdateVideoBatchTime), (2, CleanupOldState 7),
      (3, MarkFilesProcessed [''image_b.csv'']), (3, UpdateImageBatchProcessed 1)]
   \<and> ''video_a.csv'' \<in> set (processed_files (state
        (mark_files_processed (new_batch_manager 300 100 None) [''video_a.csv''])))
   \<and> ''video_a.csv'' \<in> set (processed_files (state
        (run_ops (mark_files_processed (new_batch_manager 300 100 None) [''video_a.csv''])
           [(1, UpdateStatistics 5), (1, UpdateVideoBatchTime), (2, CleanupOldState 7),
            (3, MarkFilesProcessed [''image_b.csv'']), (3, UpdateImageBatchProcessed 1)])))"
proof -
  let ?bm = "mark_files_processed (new_batch_manager 300 100 None) [''video_a.csv'']"
  let ?ops = "[(1, UpdateStatistics 5), (1, UpdateVideoBatchTime), (2, CleanupOldState 7),
      (3, MarkFilesProcessed [''image_b.csv'']), (3, UpdateImageBatchProcessed 1)]"
  have run: "no_removal_run ?bm ?ops"
    by (simp add: mark_files_processed_def new_batch_manager_def load_state_def
          default_state_def update_statistics_def update_video_batch_time_def
          cleanup_old_state_def max_files_def)
  have mem: "''video_a.csv'' \<in> set (processed_files (state ?bm))"
    by (simp add: mark_files_processed_def new_batch_manager_def load_state_def
          default_state_def)
  from processed_files_monotone [OF run mem] run mem show ?thesis by blast
qed

section \<open>Properties of the loader\<close>


lemma filter_overwrite_other:
  "c \<noteq> c' \<Longrightarrow>
   filter (\<lambda>p. fst p = c') (map (\<lambda>p. if fst p = c then (c, vs) else p) xs) =
   filter (\<lambda>p. fst p = c') xs"
  by (induction xs) auto

lemma labelled_set_column_other:
  "c \<noteq> c' \<Longrightarrow> labelled (set_column df c vs) c' = labelled df c'"
  by (simp add: labelled_def set_column_def filter_overwrite_other)

lemma nrows_set_column [simp]: "nrows (set_column df c vs) = nrows df"
  by (simp add: set_column_def)

lemma nrows_set_scalar [simp]: "nrows (set_scalar df c v) = nrows df"
  by (simp add: set_scalar_def)

lemma labelled_set_scalar_other:
  "c \<noteq> c' \<Longrightarrow> labelled (set_scalar df c v) c' = labelled df c'"
  by (simp add: set_scalar_def labelled_set_column_other)



lemma nrows_rename [simp]: "nrows (rename df old new) = nrows df"
  by (simp add: rename_def)


lemma nrows_rename_step [simp]: "nrows (rename_step kv df) = nrows df"
  by (simp add: rename_step_def)


lemma nrows_fold_rename_step [simp]: "nrows (fold rename_step kvs df) = nrows df"
  by (induction kvs arbitrary: df) simp_all


lemma nrows_apply_renames [simp]: "nrows (apply_renames df) = nrows df"
  by (simp add: apply_renames_def)

lemma add_processing_date_id:
  assumes "add_processing_date e df = Inr d"
  shows "labelled d ''detection_id'' = labelled df ''detection_id'' \<and> nrows d = nrows df"
  using assms
  by (auto simp: add_processing_date_def labelled_set_column_other labelled_set_scalar_other
        split: if_splits sum.splits)



lemma nrows_fill_step [simp]: "nrows (fill_step col df) = nrows df"
  by (simp add: fill_step_def)


lemma nrows_fill_missing [simp]: "nrows (fill_missing cs df) = nrows df"
  unfolding fill_missing_def by (induction cs arbitrary: df) simp_all



























section \<open>The written schema\<close>

lemma columns_set_column:
  "columns (set_column df c vs) = (if c \<in> set (columns df) then columns df else columns df @ [c])"
proof -
  have "map fst (map (\<lambda>p. if fst p = c then (c, vs) else p) xs) = map fst xs" for xs :: "(string \<times> val list) list"
    by (induction xs) auto
  then show ?thesis by (simp add: columns_def set_column_def)
qed

lemma columns_fill_step:
  "columns (fill_step c df) = (if c \<in> set (columns df) then columns df else columns df @ [c])"
  by (simp add: fill_step_def set_scalar_def columns_set_column)

lemma fill_step_columns:
  assumes "distinct (columns df)"
  shows "distinct (columns (fill_step c df))"
    and "set (columns (fill_step c df)) = insert c (set (columns df))"
  using assms by (auto simp: columns_fill_step)

lemma fill_missing_columns:
  "distinct (columns df) \<Longrightarrow>
   distinct (columns (fill_missing cs df))
   \<and> set (columns (fill_missing cs df)) = set (columns df) \<union> set cs"
proof (induction cs arbitrary: df)
  case Nil
  then show ?case by (simp add: fill_missing_def)
next
  case (Cons c cs)
  have step: "fill_missing (c # cs) df = fill_missing cs (fill_step c df)"
    by (simp add: fill_missing_def)
  from fill_step_columns [OF Cons.prems, of c]
  have d: "distinct (columns (fill_step c df))"
    and s: "set (columns (fill_step c df)) = insert c (set (columns df))"
    by simp_all
  from Cons.IH [OF d] show ?case
    unfolding step s by auto
qed

lemma labelled_single:
  "distinct (map fst xs) \<Longrightarrow> c \<in> fst ` set xs \<Longrightarrow> \<exists>vs. filter (\<lambda>p. fst p = c) xs = [(c, vs)]"
proof (induction xs)
  case Nil
  then show ?case by simp
next
  case (Cons x xs)
  show ?case
  proof (cases "fst x = c")
    case True
    from Cons.prems(1) have "fst x \<notin> fst ` set xs" by simp
    with True have "\<forall>p \<in> set xs. fst p \<noteq> c" by (metis imageI)
    then have "filter (\<lambda>p. fst p = c) xs = []"
      by (simp add: filter_empty_conv)
    with True show ?thesis by (cases x) simp
  next
    case False
    with Cons show ?thesis by auto
  qed
qed

lemma select_columns_schema:
  assumes "distinct (columns df)" and "set cs \<subseteq> set (columns df)"
  shows "\<exists>d. select_columns df cs = Inr d \<and> columns d = cs \<and> nrows d = nrows df"
proof -
  have "filter (\<lambda>c. c \<notin> set (columns df)) cs = []"
    using assms(2) by (auto simp: filter_empty_conv)
  then have sel: "select_columns df cs = Inr (df\<lparr>cols := concat (map (labelled df) cs)\<rparr>)"
    by (simp add: select_columns_def)
  have "map fst (concat (map (labelled df) cs')) = cs'" if "set cs' \<subseteq> set (columns df)" for cs'
    using that
  proof (induction cs')
    case Nil
    then show ?case by simp
  next
    case (Cons c cs')
    from Cons.prems have "c \<in> fst ` set (cols df)" by (simp add: columns_def)
    from labelled_single [OF assms(1) [unfolded columns_def] this]
    obtain vs where "filter (\<lambda>p. fst p = c) (cols df) = [(c, vs)]" ..
    then have "labelled df c = [(c, vs)]" by (simp add: labelled_def)
    moreover from Cons.prems have "set cs' \<subseteq> set (columns df)" by simp
    ultimately show ?case using Cons.IH by simp
  qed
  from this [OF assms(2)] sel show ?thesis by (simp add: columns_def)
qed

lemma add_processing_date_distinct:
  "add_processing_date e df = Inr d \<Longrightarrow> distinct (columns df) \<Longrightarrow> distinct (columns d)"
  by (auto simp: add_processing_date_def set_scalar_def columns_set_column
        split: if_splits sum.splits)

text \<open>
  When the renaming produces no repeated label, the frame that \<open>load_batch\<close> writes
  has exactly the expected columns, in their order, and as many rows as the batch.
\<close>

lemma align_columns_schema:
  assumes "distinct (columns (apply_renames (set_scalar df ''loaded_at'' (Str (now_iso e)))))"
    and "align_columns e df = Inr d"
  shows "columns d = expected_columns \<and> nrows d = nrows df"
proof -
  let ?df2 = "apply_renames (set_scalar df ''loaded_at'' (Str (now_iso e)))"
  from assms(2) obtain df3 where df3: "add_processing_date e ?df2 = Inr df3"
    and sel: "select_columns (fill_missing expected_columns df3) expected_columns = Inr d"
    by (auto simp: align_columns_def Let_def split: sum.splits)
  from add_processing_date_distinct [OF df3 assms(1)] have "distinct (columns df3)" .
  from fill_missing_columns [OF this, of expected_columns]
  have "distinct (columns (fill_missing expected_columns df3))"
    and "set expected_columns \<subseteq> set (columns (fill_missing expected_columns df3))"
    by auto
  from select_columns_schema [OF this] sel
  have "columns d = expected_columns" and "nrows d = nrows (fill_missing expected_columns df3)"
    by auto
  moreover from add_processing_date_id [OF df3] have "nrows df3 = nrows df" by simp
  ultimately show ?thesis by simp
qed


section \<open>Properties of the orchestrator and the scheduler\<close>





















section \<open>Properties of the detection ids\<close>
















end
